theory Spec2Isabelle
  imports Complex_Main "HOL-Library.Sublist"
begin

section \<open>Python strings\<close>

text \<open>
  A Python \<open>str\<close> is modelled as a list of characters with code points below 256, and
  \<open>bytes\<close> as a list of 8-bit characters. The string operations of the standard library
  that \<open>deepseeked.py\<close> calls are written out below.
\<close>

type_synonym str = string
type_synonym bytes = string

definition think_open :: str where
  "think_open = ''<think>''"

definition think_close :: str where
  "think_close = ''</think>''"

definition backtick :: char where
  "backtick = CHR 0x60"

definition fence :: str where
  "fence = [backtick, backtick, backtick]"

definition json_tag :: str where
  "json_tag = ''json''"

definition newline :: char where
  "newline = CHR 0x0A"

text \<open>\<open>sub in s\<close>: some suffix of \<open>s\<close> starts with \<open>sub\<close>.\<close>

fun contains :: "str \<Rightarrow> str \<Rightarrow> bool" where
  "contains sub [] = (sub = [])"
| "contains sub (c # cs) = (prefix sub (c # cs) \<or> contains sub cs)"

text \<open>\<open>s.find(sub)\<close>: the index of the first occurrence, \<open>-1\<close> when there is none.\<close>

fun find_from :: "str \<Rightarrow> nat \<Rightarrow> str \<Rightarrow> int" where
  "find_from sub i [] = (if sub = [] then int i else - 1)"
| "find_from sub i (c # cs) =
     (if prefix sub (c # cs) then int i else find_from sub (Suc i) cs)"

definition py_find :: "str \<Rightarrow> str \<Rightarrow> int" where
  "py_find s sub = find_from sub 0 s"

text \<open>
  \<open>s.split(sep)\<close>: scan from the left, cut at every occurrence of \<open>sep\<close> found, and
  resume after it. Python raises ValueError on an empty separator; the program only
  splits on non-empty literals, and the model returns no piece at all there.
\<close>

function split_from :: "str \<Rightarrow> str \<Rightarrow> str \<Rightarrow> str list" where
  "split_from sep cur s =
     (if sep = [] then []
      else if s = [] then [cur]
      else if prefix sep s then cur # split_from sep [] (drop (length sep) s)
      else split_from sep (cur @ [hd s]) (tl s))"
  by pat_completeness auto
termination
  by (relation "measure (\<lambda>(sep, cur, s). length s)") auto

declare split_from.simps [simp del]

definition py_split :: "str \<Rightarrow> str \<Rightarrow> str list" where
  "py_split s sep = split_from sep [] s"

text \<open>
  \<open>str.isspace\<close> on one character, which is also what \<open>\s\<close> matches in a \<open>str\<close>
  pattern: the code points 9 to 13, 28 to 32, 133 and 160.
\<close>

definition isspace :: "char \<Rightarrow> bool" where
  "isspace c = (let n = (of_char c :: nat) in
     (9 \<le> n \<and> n \<le> 13) \<or> (28 \<le> n \<and> n \<le> 32) \<or> n = 133 \<or> n = 160)"

definition lstrip :: "str \<Rightarrow> str" where
  "lstrip s = dropWhile isspace s"

definition rstrip :: "str \<Rightarrow> str" where
  "rstrip s = rev (dropWhile isspace (rev s))"

definition strip :: "str \<Rightarrow> str" where
  "strip s = rstrip (lstrip s)"

text \<open>\<open>sep.join(xs)\<close>\<close>

fun py_join :: "str \<Rightarrow> str list \<Rightarrow> str" where
  "py_join sep [] = []"
| "py_join sep [x] = x"
| "py_join sep (x # y # ys) = x @ sep @ py_join sep (y # ys)"

section \<open>The fence pattern\<close>

text \<open>
  \<open>re.search(r'```(?:json)?\s*(.*?)\s*```', s, re.DOTALL)\<close>, as the backtracking matcher
  runs it: start positions from the left; at each, the alternatives of every quantifier in
  its order of preference (the greedy ones longest first, the lazy group shortest first);
  the first complete match wins. The result is group 1 of that match.
\<close>

fun first_some :: "('a \<Rightarrow> 'b option) \<Rightarrow> 'a list \<Rightarrow> 'b option" where
  "first_some f [] = None"
| "first_some f (x # xs) = (case f x of Some y \<Rightarrow> Some y | None \<Rightarrow> first_some f xs)"

definition ws_run :: "str \<Rightarrow> nat" where
  "ws_run s = length (takeWhile isspace s)"

text \<open>\<open>\s*```\<close> at the start of \<open>s\<close>: the greedy \<open>\s*\<close> gives back one character at a time.\<close>

definition match_close :: "str \<Rightarrow> bool" where
  "match_close s = list_ex (\<lambda>k. prefix fence (drop k s)) (rev [0..<Suc (ws_run s)])"

text \<open>\<open>(.*?)\s*```\<close>: the lazy group takes one more character until the rest matches.\<close>

definition match_group :: "str \<Rightarrow> str option" where
  "match_group s =
     first_some (\<lambda>n. if match_close (drop n s) then Some (take n s) else None)
       [0..<Suc (length s)]"

text \<open>\<open>\s*(.*?)\s*```\<close>\<close>

definition match_body :: "str \<Rightarrow> str option" where
  "match_body s = first_some (\<lambda>k. match_group (drop k s)) (rev [0..<Suc (ws_run s)])"

text \<open>\<open>(?:json)?\s*(.*?)\s*```\<close>: with the tag first, without it when that fails.\<close>

definition match_tagged :: "str \<Rightarrow> str option" where
  "match_tagged s =
     (case (if prefix json_tag s then match_body (drop (length json_tag) s) else None) of
        Some g \<Rightarrow> Some g
      | None \<Rightarrow> match_body s)"

definition match_at :: "str \<Rightarrow> str option" where
  "match_at s = (if prefix fence s then match_tagged (drop (length fence) s) else None)"

definition re_search_group1 :: "str \<Rightarrow> str option" where
  "re_search_group1 s = first_some (\<lambda>i. match_at (drop i s)) [0..<Suc (length s)]"

section \<open>The tag filter\<close>

text \<open>Lines 20 to 24 of \<open>process_thinking_content\<close>: the code-fence unwrapping.\<close>

definition fence_unwrap :: "str \<Rightarrow> str" where
  "fence_unwrap message_content =
     (if contains fence message_content then
        (case re_search_group1 message_content of
           Some g \<Rightarrow> strip g
         | None \<Rightarrow> message_content)
      else message_content)"

text \<open>\<open>thinking_started\<close> is the filter state: \<open>False\<close> is Normal, \<open>True\<close> is InsideThinking.\<close>

definition process_thinking_content :: "str \<Rightarrow> bool \<Rightarrow> str \<times> bool" where
  "process_thinking_content message_content thinking_started =
     (if message_content = [] then ([], thinking_started)
      else
        let message_content = fence_unwrap message_content in
        if contains think_open message_content then
          (hd (py_split message_content think_open), True)
        else if contains think_close message_content then
          (last (py_split message_content think_close), False)
        else if thinking_started then ([], thinking_started)
        else (message_content, thinking_started))"

text \<open>
  The same lines of \<open>process_thinking_content\<close> with the operations that can raise
  written as results: \<open>split\<close> raises ValueError on an empty separator, and \<open>[0]\<close> and
  \<open>[-1]\<close> raise IndexError on an empty list. \<open>Inl\<close> is the exception that leaves the
  function. The other operations of these lines (\<open>in\<close>, \<open>re.search\<close>, \<open>group(1)\<close> of
  a match of this pattern, \<open>strip\<close>) do not raise on a \<open>str\<close>.
\<close>

datatype filter_error = ValueError | IndexError

definition split_checked :: "str \<Rightarrow> str \<Rightarrow> filter_error + str list" where
  "split_checked s sep = (if sep = [] then Inl ValueError else Inr (py_split s sep))"

definition item_first :: "str list \<Rightarrow> filter_error + str" where
  "item_first xs = (if xs = [] then Inl IndexError else Inr (hd xs))"

definition item_last :: "str list \<Rightarrow> filter_error + str" where
  "item_last xs = (if xs = [] then Inl IndexError else Inr (last xs))"

definition process_thinking_content_raising :: "str \<Rightarrow> bool \<Rightarrow> filter_error + (str \<times> bool)" where
  "process_thinking_content_raising message_content thinking_started =
     (if message_content = [] then Inr ([], thinking_started)
      else
        let message_content = fence_unwrap message_content in
        if contains think_open message_content then
          (case split_checked message_content think_open of
             Inl e \<Rightarrow> Inl e
           | Inr parts \<Rightarrow>
               (case item_first parts of
                  Inl e \<Rightarrow> Inl e
                | Inr content_before \<Rightarrow> Inr (content_before, True)))
        else if contains think_close message_content then
          (case split_checked message_content think_close of
             Inl e \<Rightarrow> Inl e
           | Inr parts \<Rightarrow>
               (case item_last parts of
                  Inl e \<Rightarrow> Inl e
                | Inr content_after \<Rightarrow> Inr (content_after, False)))
        else if thinking_started then Inr ([], thinking_started)
        else Inr (message_content, thinking_started))"

definition is_empty_content :: "str \<Rightarrow> bool" where
  "is_empty_content message_content =
     (if message_content = [] then True else strip message_content = [])"


section \<open>The non-streaming cleanup\<close>

text \<open>
  One round of the \<open>while\<close> loop of \<open>clean_response_content\<close>:
  \<open>content[:start] + content[end:]\<close> with \<open>start\<close> the first opening marker and \<open>end\<close>
  the end of the first closing marker. Neither index is negative in the loop, where both
  markers occur.
\<close>

definition remove_first_span :: "str \<Rightarrow> str" where
  "remove_first_span content =
     (let start = py_find content think_open;
          endpos = py_find content think_close + int (length think_close)
      in take (nat start) content @ drop (nat endpos) content)"

text \<open>
  Nothing in the source bounds the number of rounds, so the loop is a partial function:
  \<open>None\<close> is the loop that never leaves.
\<close>

partial_function (option) clean_loop :: "str \<Rightarrow> str option" where
  "clean_loop content =
     (if contains think_open content \<and> contains think_close content then
        clean_loop (remove_first_span content)
      else Some content)"

definition collapse_newlines :: "str \<Rightarrow> str" where
  "collapse_newlines content =
     py_join [newline] (filter (\<lambda>line. line \<noteq> []) (py_split content [newline]))"

definition clean_response_content :: "str \<Rightarrow> str option" where
  "clean_response_content content =
     (if content = [] then Some content
      else
        case clean_loop content of
          None \<Rightarrow> None
        | Some content' \<Rightarrow> Some (strip (collapse_newlines content')))"

section \<open>The streaming transformer\<close>

text \<open>
  The values \<open>json.loads\<close> returns. An object is an association list in insertion order.
  Floats stand as reals: the program only asks whether a number is zero.
\<close>

datatype json =
    JNull
  | JBool bool
  | JInt int
  | JFloat real
  | JStr str
  | JArr "json list"
  | JObj "(str \<times> json) list"

datatype error = UnicodeDecodeError | JSONDecodeError | TypeError | AttributeError | KeyError

text \<open>\<open>not v\<close>\<close>

fun falsy :: "json \<Rightarrow> bool" where
  "falsy JNull = True"
| "falsy (JBool b) = (\<not> b)"
| "falsy (JInt n) = (n = 0)"
| "falsy (JFloat x) = (x = 0)"
| "falsy (JStr s) = (s = [])"
| "falsy (JArr xs) = (xs = [])"
| "falsy (JObj kvs) = (kvs = [])"

text \<open>\<open>key in v\<close> for a string \<open>key\<close>: keys of a dict, elements of a list, substrings of a string.\<close>

fun py_in :: "str \<Rightarrow> json \<Rightarrow> error + bool" where
  "py_in key (JObj kvs) = Inr (key \<in> fst ` set kvs)"
| "py_in key (JArr xs) = Inr (JStr key \<in> set xs)"
| "py_in key (JStr s) = Inr (contains key s)"
| "py_in key v = Inl TypeError"

text \<open>\<open>v[key]\<close> for a string \<open>key\<close>\<close>

fun py_getitem :: "json \<Rightarrow> str \<Rightarrow> error + json" where
  "py_getitem (JObj kvs) key = (case map_of kvs key of None \<Rightarrow> Inl KeyError | Some v \<Rightarrow> Inr v)"
| "py_getitem v key = Inl TypeError"

text \<open>\<open>d[key] = v\<close> on a dict: an existing key keeps its place, a new one goes last.\<close>

fun dict_set :: "str \<Rightarrow> json \<Rightarrow> (str \<times> json) list \<Rightarrow> (str \<times> json) list" where
  "dict_set key v [] = [(key, v)]"
| "dict_set key v ((k, w) # kvs) =
     (if k = key then (key, v) # kvs else (k, w) # dict_set key v kvs)"

text \<open>\<open>data['message']['content'] = cleaned_content\<close>, where both are dicts.\<close>

fun set_content :: "json \<Rightarrow> str \<Rightarrow> json" where
  "set_content (JObj kvs) cleaned_content =
     (case map_of kvs ''message'' of
        Some (JObj m) \<Rightarrow>
          JObj (dict_set ''message'' (JObj (dict_set ''content'' (JStr cleaned_content) m)) kvs)
      | _ \<Rightarrow> JObj kvs)"
| "set_content v cleaned_content = v"

text \<open>\<open>'message' in data and 'content' in data['message']\<close>\<close>

definition has_content :: "json \<Rightarrow> error + bool" where
  "has_content data =
     (case py_in ''message'' data of
        Inl e \<Rightarrow> Inl e
      | Inr False \<Rightarrow> Inr False
      | Inr True \<Rightarrow>
          (case py_getitem data ''message'' of
             Inl e \<Rightarrow> Inl e
           | Inr message \<Rightarrow> py_in ''content'' message))"

text \<open>
  \<open>process_thinking_content(content, thinking_started)\<close> on whatever value the record holds
  at \<open>message.content\<close>. On a string it is the filter above. On another value the same
  lines run: a falsy value returns the empty string; \<open>in\<close> raises TypeError on a number or
  \<open>True\<close>; on a list or dict that holds the searched string, \<open>re.search\<close> raises TypeError
  and \<open>split\<close> AttributeError; otherwise the value comes back unchanged in state Normal,
  and \<open>is_empty_content\<close> then raises AttributeError on its \<open>strip\<close>.
\<close>

definition filter_payload :: "json \<Rightarrow> bool \<Rightarrow> error + (str \<times> bool)" where
  "filter_payload content thinking_started =
     (case content of
        JStr s \<Rightarrow> Inr (process_thinking_content s thinking_started)
      | _ \<Rightarrow>
          if falsy content then Inr ([], thinking_started)
          else
            (case py_in fence content of
               Inl e \<Rightarrow> Inl e
             | Inr True \<Rightarrow> Inl TypeError
             | Inr False \<Rightarrow>
                 (case py_in think_open content of
                    Inl e \<Rightarrow> Inl e
                  | Inr True \<Rightarrow> Inl AttributeError
                  | Inr False \<Rightarrow>
                      (case py_in think_close content of
                         Inl e \<Rightarrow> Inl e
                       | Inr True \<Rightarrow> Inl AttributeError
                       | Inr False \<Rightarrow>
                           if thinking_started then Inr ([], thinking_started)
                           else Inl AttributeError))))"

text \<open>
  One round of the loop of \<open>generate\<close>. \<open>loads chunk\<close> stands for
  \<open>json.loads(chunk.decode('utf-8'))\<close> and \<open>dumps data\<close> for
  \<open>json.dumps(data).encode('utf-8')\<close>; both belong to the standard library and are
  parameters. \<open>loads\<close> returns \<open>Inl UnicodeDecodeError\<close> on bytes that are not UTF-8 and
  \<open>Inl JSONDecodeError\<close> on text that is not JSON. Only \<open>JSONDecodeError\<close> is caught; any
  other exception leaves the generator, which is the result \<open>Inl\<close>. Otherwise the result
  is the list of byte strings yielded in this round and the new state.
\<close>

definition generate_step ::
  "(bytes \<Rightarrow> error + json) \<Rightarrow> (json \<Rightarrow> bytes) \<Rightarrow> bytes \<Rightarrow> bool \<Rightarrow> error + (bytes list \<times> bool)" where
  "generate_step loads dumps chunk thinking_started =
     (if chunk = [] then Inr ([], thinking_started)
      else
        case loads chunk of
          Inl e \<Rightarrow>
            if e = JSONDecodeError then Inr ([chunk @ [newline]], thinking_started) else Inl e
        | Inr data \<Rightarrow>
            (case has_content data of
               Inl e \<Rightarrow> Inl e
             | Inr False \<Rightarrow> Inr ([chunk @ [newline]], thinking_started)
             | Inr True \<Rightarrow>
                 (case py_getitem data ''message'' of
                    Inl e \<Rightarrow> Inl e
                  | Inr message \<Rightarrow>
                      (case py_getitem message ''content'' of
                         Inl e \<Rightarrow> Inl e
                       | Inr content \<Rightarrow>
                           (case filter_payload content thinking_started of
                              Inl e \<Rightarrow> Inl e
                            | Inr (cleaned_content, thinking_started') \<Rightarrow>
                                if is_empty_content cleaned_content then Inr ([], thinking_started')
                                else
                                  Inr ([dumps (set_content data cleaned_content) @ [newline]],
                                       thinking_started'))))))"

text \<open>
  The whole generator on the lines of the upstream body: what it yields, and the exception
  that ended it if one did.
\<close>

fun generate_from ::
  "(bytes \<Rightarrow> error + json) \<Rightarrow> (json \<Rightarrow> bytes) \<Rightarrow> bytes list \<Rightarrow> bool \<Rightarrow> bytes list \<times> error option" where
  "generate_from loads dumps [] thinking_started = ([], None)"
| "generate_from loads dumps (chunk # rest) thinking_started =
     (case generate_step loads dumps chunk thinking_started of
        Inl e \<Rightarrow> ([], Some e)
      | Inr (out, thinking_started') \<Rightarrow>
          (case generate_from loads dumps rest thinking_started' of
             (outs, raised) \<Rightarrow> (out @ outs, raised)))"

definition generate ::
  "(bytes \<Rightarrow> error + json) \<Rightarrow> (json \<Rightarrow> bytes) \<Rightarrow> bytes list \<Rightarrow> bytes list \<times> error option" where
  "generate loads dumps chunks = generate_from loads dumps chunks False"

section \<open>The specification's words\<close>



text \<open>The text before the first occurrence of \<open>sub\<close>, and the text after it.\<close>

fun before_first :: "str \<Rightarrow> str \<Rightarrow> str" where
  "before_first sub [] = []"
| "before_first sub (c # cs) = (if prefix sub (c # cs) then [] else c # before_first sub cs)"

fun after_first :: "str \<Rightarrow> str \<Rightarrow> str" where
  "after_first sub [] = []"
| "after_first sub (c # cs) =
     (if prefix sub (c # cs) then drop (length sub) (c # cs) else after_first sub cs)"

text \<open>
  A complete fenced block: an opening fence and a closing fence after it. Its content is
  what stands between the first opening fence, with the \<open>json\<close> tag if it follows at once,
  and the next fence, trimmed.
\<close>

definition has_fenced_block :: "str \<Rightarrow> bool" where
  "has_fenced_block s = (contains fence s \<and> contains fence (after_first fence s))"

definition spec_fence_content :: "str \<Rightarrow> str" where
  "spec_fence_content s =
     (let r = after_first fence s;
          r' = (if prefix json_tag r then drop (length json_tag) r else r)
      in strip (before_first fence r'))"




section \<open>Claims about the streaming filter\<close>


section \<open>The cleanup loop that never leaves\<close>

text \<open>
  A set of texts that all hold both markers and that a round of the loop maps into itself
  is never left: the loop does not return on any of them.
\<close>

lemma clean_loop_stuck:
  assumes closed: "\<And>x. x \<in> S \<Longrightarrow>
      contains think_open x \<and> contains think_close x \<and> remove_first_span x \<in> S"
    and start: "content \<in> S"
  shows "clean_loop content = None"
proof -
  have out: "x \<notin> S" if "clean_loop x = Some y" for x y
  proof (rule clean_loop.raw_induct [where P = "\<lambda>x y. x \<notin> S", OF _ that])
    fix f x y
    assume IH: "\<And>x y. f x = Some y \<Longrightarrow> x \<notin> S"
      and step: "(if contains think_open x \<and> contains think_close x then f (remove_first_span x)
                  else Some x) = Some y"
    show "x \<notin> S"
    proof
      assume "x \<in> S"
      with closed have "contains think_open x \<and> contains think_close x"
        and next_in: "remove_first_span x \<in> S" by blast+
      with step have "f (remove_first_span x) = Some y" by simp
      with IH next_in show False by blast
    qed
  qed
  show ?thesis
  proof (cases "clean_loop content")
    case None then show ?thesis .
  next
    case (Some y)
    with out start show ?thesis by blast
  qed
qed

lemma closing_first_facts:
  "contains think_open ''</think><think>''"
  "contains think_close ''</think><think>''"
  "remove_first_span ''</think><think>'' = ''</think><think>''"
  by code_simp+

text \<open>
  C2: the cleanup returns on every input, also where a closing marker comes before the
  first opening marker. On \<open></think><think>\<close> the first opening marker is at index 8 and
  the first closing marker ends at index 8, so a round of the loop cuts nothing out, both
  markers stay, and the loop never leaves: the call does not return.
\<close>

theorem C2_closing_first_never_returns:
  "clean_response_content ''</think><think>'' = None"
proof -
  have "clean_loop ''</think><think>'' = None"
    by (rule clean_loop_stuck [where S = "{''</think><think>''}"])
       (use closing_first_facts in blast)+
  then show ?thesis by (simp add: clean_response_content_def)
qed

lemma rebuilt_facts:
  "contains think_open ''</thi<think>x</think>nk><think>y</think>''"
  "contains think_close ''</thi<think>x</think>nk><think>y</think>''"
  "remove_first_span ''</thi<think>x</think>nk><think>y</think>'' = ''</think><think>y</think>''"
  "contains think_open ''</think><think>y</think>''"
  "contains think_close ''</think><think>y</think>''"
  "remove_first_span ''</think><think>y</think>'' = ''</think><think>y</think>''"
  by code_simp+

text \<open>
  C6: on an input of well-formed spans the cleanup applied twice gives what it gives
  applied once. The input \<open></thi<think>x</think>nk><think>y</think>\<close> holds two spans,
  each opening marker followed by its closing marker. Removing the first span joins
  \<open></thi\<close> and \<open>nk>\<close> into a closing marker in front of the second span, and from
  there the loop never leaves: the first application does not return.
\<close>

theorem C6_rebuilt_marker_never_returns:
  "clean_response_content ''</thi<think>x</think>nk><think>y</think>'' = None"
proof -
  have "clean_loop ''</thi<think>x</think>nk><think>y</think>'' = None"
    by (rule clean_loop_stuck
          [where S = "{''</thi<think>x</think>nk><think>y</think>'', ''</think><think>y</think>''}"])
       (use rebuilt_facts in blast)+
  then show ?thesis by (simp add: clean_response_content_def)
qed

section \<open>Facts about the string operations\<close>

lemma contains_iff: "contains sub s \<longleftrightarrow> (\<exists>pre post. s = pre @ sub @ post)"
proof (induction s)
  case Nil
  then show ?case by auto
next
  case (Cons c cs)
  show ?case
  proof
    assume "contains sub (c # cs)"
    then consider "prefix sub (c # cs)" | "contains sub cs" by auto
    then show "\<exists>pre post. c # cs = pre @ sub @ post"
    proof cases
      case 1
      then obtain post where "c # cs = sub @ post" by (auto simp: prefix_def)
      then have "c # cs = [] @ sub @ post" by simp
      then show ?thesis by blast
    next
      case 2
      with Cons.IH obtain pre post where "cs = pre @ sub @ post" by blast
      then have "c # cs = (c # pre) @ sub @ post" by simp
      then show ?thesis by blast
    qed
  next
    assume "\<exists>pre post. c # cs = pre @ sub @ post"
    then obtain pre post where eq: "c # cs = pre @ sub @ post" by blast
    show "contains sub (c # cs)"
    proof (cases pre)
      case Nil
      with eq have "prefix sub (c # cs)" by (simp add: prefix_def)
      then show ?thesis by simp
    next
      case (Cons p ps)
      with eq have "cs = ps @ sub @ post" by simp
      with Cons.IH have "contains sub cs" by blast
      then show ?thesis by simp
    qed
  qed
qed


lemma contains_set: "contains sub s \<Longrightarrow> set sub \<subseteq> set s"
  by (auto simp: contains_iff)

lemma contains_skip:
  "sub \<noteq> [] \<Longrightarrow> hd sub \<notin> set xs \<Longrightarrow> contains sub (xs @ s) = contains sub s"
proof (induction xs)
  case Nil
  then show ?case by simp
next
  case (Cons x xs)
  then have "\<not> prefix sub (x # xs @ s)" by (cases sub) auto
  with Cons show ?case by simp
qed

lemma split_from_nonempty: "sep \<noteq> [] \<Longrightarrow> split_from sep cur s \<noteq> []"
  by (induction sep cur s rule: split_from.induct) (subst split_from.simps, simp)

lemma split_from_absent:
  "sep \<noteq> [] \<Longrightarrow> \<not> contains sep s \<Longrightarrow> split_from sep cur s = [cur @ s]"
proof (induction sep cur s rule: split_from.induct)
  case (1 sep cur s)
  show ?case
  proof (cases s)
    case Nil
    with 1 show ?thesis by (subst split_from.simps) simp
  next
    case (Cons c cs)
    with 1(4) have np: "\<not> prefix sep s" and nc: "\<not> contains sep cs" by auto
    with 1(2)[OF 1(3)] Cons 1(3) have "split_from sep (cur @ [hd s]) (tl s) = [(cur @ [hd s]) @ tl s]" 
      by simp
    with np Cons 1(3) show ?thesis by (subst split_from.simps) simp
  qed
qed

lemma split_from_hd:
  "sep \<noteq> [] \<Longrightarrow> hd (split_from sep cur s) = cur @ before_first sep s"
proof (induction sep cur s rule: split_from.induct)
  case (1 sep cur s)
  show ?case
  proof (cases s)
    case Nil
    with 1 show ?thesis by (subst split_from.simps) simp
  next
    case (Cons c cs)
    show ?thesis
    proof (cases "prefix sep s")
      case True
      with Cons 1(3) show ?thesis by (subst split_from.simps) simp
    next
      case False
      with 1(2)[OF 1(3)] Cons 1(3) have "hd (split_from sep (cur @ [hd s]) (tl s)) = (cur @ [hd s]) @ before_first sep (tl s)"
        by simp
      with False Cons 1(3) show ?thesis by (subst split_from.simps) simp
    qed
  qed
qed

lemma before_first_decomp:
  "contains sep s \<Longrightarrow> s = before_first sep s @ sep @ after_first sep s"
  by (induction s) (auto simp: prefix_def)

lemma contains_length: "contains sub s \<Longrightarrow> length sub \<le> length s"
  by (auto simp: contains_iff)

lemma before_first_is_first:
  "sep \<noteq> [] \<Longrightarrow> contains sep s \<Longrightarrow> \<not> contains sep (before_first sep s @ butlast sep)"
proof (induction s)
  case Nil
  then show ?case by simp
next
  case (Cons c cs)
  have "length (butlast sep) < length sep" using Cons.prems(1) by simp
  then have short: "\<not> contains sep (butlast sep)"
    using contains_length [of sep "butlast sep"] by linarith
  show ?case
  proof (cases "prefix sep (c # cs)")
    case True
    with short show ?thesis by simp
  next
    case False
    with Cons.prems have in_cs: "contains sep cs" by simp
    with Cons have IH: "\<not> contains sep (before_first sep cs @ butlast sep)" by blast
    from in_cs have "cs = before_first sep cs @ sep @ after_first sep cs"
      by (rule before_first_decomp)
    moreover have "sep = butlast sep @ [last sep]" using Cons.prems(1) by simp
    ultimately have "cs = (before_first sep cs @ butlast sep) @ ([last sep] @ after_first sep cs)"
      by (metis append.assoc)
    then have "prefix (before_first sep cs @ butlast sep) cs"
      by (rule prefixI)
    then have "prefix (c # before_first sep cs @ butlast sep) (c # cs)"
      by simp
    with False have "\<not> prefix sep (c # before_first sep cs @ butlast sep)"
      using prefix_order.trans by blast
    with IH False show ?thesis by simp
  qed
qed

lemma split_from_last:
  assumes "sep \<noteq> []" and "hd sep \<notin> set (tl sep)" and "contains sep s"
  shows "\<exists>pre. s = pre @ sep @ last (split_from sep cur s) \<and>
               \<not> contains sep (drop (Suc (length pre)) s)"
  using assms
proof (induction sep cur s rule: split_from.induct)
  case (1 sep cur s)
  from 1(5) obtain c cs where s: "s = c # cs" using 1(3) by (cases s) auto
  show ?case
  proof (cases "prefix sep s")
    case True
    then obtain rest where rest: "s = sep @ rest" by (auto simp: prefix_def)
    then have dr: "drop (length sep) s = rest" by simp
    have unfold: "split_from sep cur s = cur # split_from sep [] rest"
      using True s 1(3) dr by (subst split_from.simps) simp
    have ne: "split_from sep [] rest \<noteq> []" using 1(3) by (rule split_from_nonempty)
    show ?thesis
    proof (cases "contains sep rest")
      case True
      with 1(1)[OF 1(3) _ \<open>prefix sep s\<close> 1(3) 1(4)] s dr
      obtain pre where pre: "rest = pre @ sep @ last (split_from sep [] rest)"
        and after: "\<not> contains sep (drop (Suc (length pre)) rest)" by auto
      have "s = (sep @ pre) @ sep @ last (split_from sep cur s)"
        using rest pre unfold ne by simp
      moreover have "drop (Suc (length (sep @ pre))) s = drop (Suc (length pre)) rest"
        using rest by simp
      ultimately show ?thesis using after by metis
    next
      case False
      then have "split_from sep [] rest = [rest]" using 1(3) split_from_absent [of sep rest "[]"] by simp
      with unfold have l: "last (split_from sep cur s) = rest" by simp
      have "drop (Suc 0) s = tl sep @ rest" using rest 1(3) by (cases sep) auto
      moreover have "\<not> contains sep (tl sep @ rest)"
        using False contains_skip [OF 1(3) 1(4)] by simp
      ultimately have "\<not> contains sep (drop (Suc (length ([]::string))) s)" by simp
      moreover have "s = [] @ sep @ last (split_from sep cur s)" using rest l by simp
      ultimately show ?thesis by blast
    qed
  next
    case False
    with 1(5) s have in_cs: "contains sep cs" by simp
    have unfold: "split_from sep cur s = split_from sep (cur @ [c]) cs"
      using False s 1(3) by (subst split_from.simps) simp
    from 1(2)[OF 1(3) _ False 1(3) 1(4)] s in_cs
    obtain pre where pre: "cs = pre @ sep @ last (split_from sep (cur @ [c]) cs)"
      and after: "\<not> contains sep (drop (Suc (length pre)) cs)" by auto
    have "s = (c # pre) @ sep @ last (split_from sep cur s)"
      using s pre unfold by simp
    moreover have "drop (Suc (length (c # pre))) s = drop (Suc (length pre)) cs"
      using s by simp
    ultimately show ?thesis using after by metis
  qed
qed

section \<open>Claims about the tag filter\<close>

lemma fence_unwrap_plain: "\<not> contains fence text \<Longrightarrow> fence_unwrap text = text"
  by (simp add: fence_unwrap_def)

lemma fence_unwrap_Nil: "fence_unwrap [] = []"
  by (simp add: fence_unwrap_def fence_def)

lemma not_space_marker_chars:
  "\<not> isspace backtick" "\<not> isspace CHR ''<''"
  by (simp_all add: isspace_def backtick_def)

lemma whitespace_no_marker:
  assumes "\<forall>c \<in> set text. isspace c"
  shows "\<not> contains fence text" "\<not> contains think_open text" "\<not> contains think_close text"
proof -
  have "backtick \<notin> set text" "CHR ''<'' \<notin> set text"
    using assms not_space_marker_chars by blast+
  moreover have "backtick \<in> set fence" "CHR ''<'' \<in> set think_open" "CHR ''<'' \<in> set think_close"
    by (simp_all add: fence_def think_open_def think_close_def)
  ultimately show "\<not> contains fence text" "\<not> contains think_open text"
    "\<not> contains think_close text"
    using contains_set by blast+
qed

lemma strip_whitespace:
  assumes "\<forall>c \<in> set text. isspace c"
  shows "strip text = []"
proof -
  have a: "dropWhile isspace text = []" using assms by simp
  show ?thesis unfolding strip_def lstrip_def rstrip_def a by simp
qed

text \<open>
  C3, as stated: on an input of whitespace only the retained text is empty. In state
  Normal a single space comes back as it is: the filter only tests the input for
  emptiness, and \<open>is_empty_content\<close> drops whitespace later, in \<open>generate\<close>.
\<close>

theorem C3_whitespace_counterexample:
  "isspace CHR '' '' \<and> fst (process_thinking_content '' '' False) \<noteq> ''''"
  by code_simp

text \<open>
  Neither \<open>split\<close> nor the indexing of its result raises: the separators are not empty,
  and \<open>split\<close> returns at least one piece. The filter with its exceptions written out
  returns what the filter returns, on every text and in every state.
\<close>

lemma filter_never_raises:
  "process_thinking_content_raising text thinking_started =
     Inr (process_thinking_content text thinking_started)"
proof -
  have ne: "think_open \<noteq> []" "think_close \<noteq> []"
    by (simp_all add: think_open_def think_close_def)
  have first: "item_first (py_split s think_open) = Inr (hd (py_split s think_open))" for s
    using split_from_nonempty [OF ne(1), of "[]" s]
    by (simp add: item_first_def py_split_def)
  have last: "item_last (py_split s think_close) = Inr (last (py_split s think_close))" for s
    using split_from_nonempty [OF ne(2), of "[]" s]
    by (simp add: item_last_def py_split_def)
  show ?thesis
    by (simp add: process_thinking_content_raising_def process_thinking_content_def
        split_checked_def ne first last Let_def)
qed

text \<open>
  C3, amended: the filter raises no exception on any text and in any state; and for every
  input that is empty or whitespace only, and for every state, the state comes back
  unchanged, the retained text is empty in InsideThinking and is the input itself in
  Normal, which \<open>is_empty_content\<close> classes as empty.
\<close>

theorem C3_whitespace_input:
  "process_thinking_content_raising text thinking_started =
     Inr (process_thinking_content text thinking_started) \<and>
   ((\<forall>c \<in> set text. isspace c) \<longrightarrow>
      snd (process_thinking_content text thinking_started) = thinking_started \<and>
      fst (process_thinking_content text thinking_started) =
        (if thinking_started then [] else text) \<and>
      is_empty_content (fst (process_thinking_content text thinking_started)))"
proof (intro conjI impI)
  show "process_thinking_content_raising text thinking_started =
     Inr (process_thinking_content text thinking_started)"
    by (rule filter_never_raises)
next
  assume ws: "\<forall>c \<in> set text. isspace c"
  have plain: "fence_unwrap text = text"
    using whitespace_no_marker(1) [OF ws] by (rule fence_unwrap_plain)
  have result: "process_thinking_content text thinking_started =
      ((if thinking_started then [] else text), thinking_started)"
    using whitespace_no_marker [OF ws] plain
    by (simp add: process_thinking_content_def)
  show "snd (process_thinking_content text thinking_started) = thinking_started"
    using result by simp
  show "fst (process_thinking_content text thinking_started) =
        (if thinking_started then [] else text)"
    using result by simp
  show "is_empty_content (fst (process_thinking_content text thinking_started))"
    using result strip_whitespace [OF ws] by (simp add: is_empty_content_def)
qed

text \<open>
  The input of a space and a newline, in both states, and an input with a marker.
\<close>

theorem C3_whitespace_input_witness:
  "isspace CHR '' '' \<and> isspace newline \<and>
   process_thinking_content_raising [CHR '' '', newline] True = Inr ([], True) \<and>
   process_thinking_content_raising [CHR '' '', newline] False =
     Inr ([CHR '' '', newline], False) \<and>
   process_thinking_content_raising ''a<think>b'' False = Inr (''a'', True)"
proof -
  have "process_thinking_content ''a<think>b'' False = (''a'', True)" by code_simp
  then show ?thesis
    using C3_whitespace_input [of "[CHR '' '', newline]" True]
      C3_whitespace_input [of "[CHR '' '', newline]" False]
      C3_whitespace_input [of "''a<think>b''" False]
    by (simp add: isspace_def newline_def prod_eq_iff)
qed

text \<open>
  C4, as stated: every input that contains the opening marker gives the text before it
  and state InsideThinking. The fence is unwrapped first: with the marker outside a
  fenced block, the marker is discarded with the rest of the outside text, the content of
  the block is retained and the state stays Normal.
\<close>

theorem C4_fenced_counterexample:
  "contains think_open (''<think>'' @ fence @ ''x'' @ fence) \<and>
   process_thinking_content (''<think>'' @ fence @ ''x'' @ fence) False = (''x'', False)"
  by code_simp

text \<open>
  C4, amended: for every input whose text after fence unwrapping contains the opening
  marker (the input itself when it holds no triple backtick), and for every state, the
  state becomes InsideThinking and the retained text is the part of the unwrapped text
  before the first opening marker; everything from the marker on is discarded, a closing
  marker and the text after it included.
\<close>

theorem C4_opening_marker:
  assumes "contains think_open (fence_unwrap text)"
  shows "snd (process_thinking_content text thinking_started) = True \<and>
         (\<exists>rest. fence_unwrap text =
            fst (process_thinking_content text thinking_started) @ think_open @ rest) \<and>
         \<not> contains think_open
            (fst (process_thinking_content text thinking_started) @ butlast think_open)"
proof -
  have ne: "think_open \<noteq> []" by (simp add: think_open_def)
  have "text \<noteq> []" using assms fence_unwrap_Nil by (auto simp: think_open_def)
  then have result: "process_thinking_content text thinking_started =
      (before_first think_open (fence_unwrap text), True)"
    using assms split_from_hd [OF ne, of "[]" "fence_unwrap text"]
    by (simp add: process_thinking_content_def py_split_def)
  show ?thesis
    using result before_first_decomp [OF assms] before_first_is_first [OF ne assms]
    by auto
qed

text \<open>
  A complete span followed by content: only \<open>a\<close> is retained.
\<close>

theorem C4_opening_marker_witness:
  "contains think_open (fence_unwrap ''a<think>b</think>c'') \<and>
   process_thinking_content ''a<think>b</think>c'' False = (''a'', True)"
proof -
  have h: "contains think_open (fence_unwrap ''a<think>b</think>c'')" by code_simp
  have "process_thinking_content ''a<think>b</think>c'' False = (''a'', True)" by code_simp
  with h C4_opening_marker [OF h, of False] show ?thesis by simp
qed

text \<open>
  C5, as stated: every input with a closing marker and no opening marker gives the text
  after the last closing marker and state Normal. With the closing marker outside a fenced
  block the unwrapped text holds no marker: in InsideThinking nothing is retained and the
  state stays InsideThinking.
\<close>

theorem C5_fenced_counterexample:
  "\<not> contains think_open (''</think>'' @ fence @ ''x'' @ fence) \<and>
   contains think_close (''</think>'' @ fence @ ''x'' @ fence) \<and>
   process_thinking_content (''</think>'' @ fence @ ''x'' @ fence) True = ('''', True)"
  by code_simp

text \<open>
  C5, amended: for every input whose text after fence unwrapping contains a closing marker
  and no opening marker (the input itself when it holds no triple backtick), and for
  every state, the state becomes Normal and the retained text is the part of the unwrapped
  text after the last closing marker: no closing marker starts later.
\<close>

theorem C5_closing_marker:
  assumes "\<not> contains think_open (fence_unwrap text)"
    and "contains think_close (fence_unwrap text)"
  shows "snd (process_thinking_content text thinking_started) = False \<and>
         (\<exists>pre. fence_unwrap text =
            pre @ think_close @ fst (process_thinking_content text thinking_started) \<and>
            \<not> contains think_close (drop (Suc (length pre)) (fence_unwrap text)))"
proof -
  have ne: "think_close \<noteq> []" and unbordered: "hd think_close \<notin> set (tl think_close)"
    by (simp_all add: think_close_def)
  have "text \<noteq> []" using assms(2) fence_unwrap_Nil by (auto simp: think_close_def)
  then have result: "process_thinking_content text thinking_started =
      (last (split_from think_close [] (fence_unwrap text)), False)"
    using assms by (simp add: process_thinking_content_def py_split_def)
  show ?thesis
    using result split_from_last [OF ne unbordered assms(2), of "[]"] by simp
qed

text \<open>
  Two closing markers: the text after the second is retained.
\<close>

theorem C5_closing_marker_witness:
  "\<not> contains think_open (fence_unwrap ''x</think>y</think>z'') \<and>
   contains think_close (fence_unwrap ''x</think>y</think>z'') \<and>
   process_thinking_content ''x</think>y</think>z'' True = (''z'', False)"
proof -
  have h1: "\<not> contains think_open (fence_unwrap ''x</think>y</think>z'')" by code_simp
  have h2: "contains think_close (fence_unwrap ''x</think>y</think>z'')" by code_simp
  have "process_thinking_content ''x</think>y</think>z'' True = (''z'', False)" by code_simp
  with h1 h2 C5_closing_marker [OF h1 h2, of True] show ?thesis by simp
qed

section \<open>Claims about the streaming transformer\<close>

lemma has_content_dict:
  assumes "map_of kvs ''message'' = Some (JObj message)"
    and "map_of message ''content'' = Some content"
  shows "has_content (JObj kvs) = Inr True"
proof -
  have "''message'' \<in> fst ` set kvs" "''content'' \<in> fst ` set message"
    using assms by (force dest: map_of_SomeD)+
  then show ?thesis using assms(1) by (simp add: has_content_def)
qed

text \<open>\<open>is_empty_content\<close> holds of the empty text and of whitespace, and of nothing else.\<close>

lemma is_empty_content_iff: "is_empty_content s \<longleftrightarrow> (\<forall>c \<in> set s. isspace c)"
proof
  assume "is_empty_content s"
  then have "strip s = []"
    by (cases "s = []") (simp_all add: is_empty_content_def strip_def lstrip_def rstrip_def)
  then have all: "\<forall>c \<in> set (dropWhile isspace s). isspace c"
    by (simp add: strip_def lstrip_def rstrip_def)
  have "dropWhile isspace s = []"
  proof (rule ccontr)
    assume ne: "dropWhile isspace s \<noteq> []"
    then have "\<not> isspace (hd (dropWhile isspace s))" by (rule hd_dropWhile)
    moreover have "hd (dropWhile isspace s) \<in> set (dropWhile isspace s)" using ne by simp
    ultimately show False using all by blast
  qed
  then show "\<forall>c \<in> set s. isspace c" by simp
next
  assume "\<forall>c \<in> set s. isspace c"
  then show "is_empty_content s" by (simp add: is_empty_content_def strip_whitespace)
qed

lemma nothing_after_final_closing:
  assumes "suffix think_close u"
  shows "contains think_close u \<and> last (py_split u think_close) = []"
proof -
  have ne: "think_close \<noteq> []" and unbordered: "hd think_close \<notin> set (tl think_close)"
    by (simp_all add: think_close_def)
  from assms obtain pre where u: "u = pre @ think_close" by (auto simp: suffix_def)
  then have c: "contains think_close u" using contains_iff by fastforce
  from split_from_last [OF ne unbordered c, of "[]"]
  obtain pre' where u': "u = pre' @ think_close @ last (split_from think_close [] u)"
    and after: "\<not> contains think_close (drop (Suc (length pre')) u)" by blast
  have "length pre \<le> length pre'"
  proof (rule ccontr)
    assume "\<not> length pre \<le> length pre'"
    then have "Suc (length pre') \<le> length pre" by simp
    then have "drop (Suc (length pre')) u = drop (Suc (length pre')) pre @ think_close"
      using u by simp
    then have "contains think_close (drop (Suc (length pre')) u)"
      using contains_iff by fastforce
    with after show False by blast
  qed
  moreover have "length u = length pre + length think_close" using u by simp
  moreover have "length u =
      length pre' + length think_close + length (last (split_from think_close [] u))"
    by (subst u') simp
  ultimately have "length (last (split_from think_close [] u)) = 0" by linarith
  then have "last (split_from think_close [] u) = []" by simp
  with c show ?thesis by (simp add: py_split_def)
qed

lemma inside_thinking_retained:
  assumes "\<not> contains think_open (fence_unwrap text)"
    and "\<not> contains think_close (fence_unwrap text) \<or> suffix think_close (fence_unwrap text)"
  shows "process_thinking_content text True =
           ([], \<not> contains think_close (fence_unwrap text))"
proof (cases "contains think_close (fence_unwrap text)")
  case True
  with assms(2) have "last (py_split (fence_unwrap text) think_close) = []"
    using nothing_after_final_closing by blast
  moreover have "text \<noteq> []" using True fence_unwrap_Nil by (auto simp: think_close_def)
  ultimately show ?thesis using True assms(1) by (simp add: process_thinking_content_def)
next
  case False
  with assms(1) show ?thesis by (simp add: process_thinking_content_def)
qed

text \<open>
  C8, as stated: a fragment whose whole text lies inside thinking mode produces no record.
  The opening marker is looked for in every state: a fragment read in InsideThinking that
  holds an opening marker gives the text before it, and the round yields a record with
  that text.
\<close>

theorem C8_marker_inside_thinking_counterexample:
  "process_thinking_content ''secret1<think>secret2'' True = (''secret1'', True) \<and>
   generate_step
     (\<lambda>chunk. Inr (JObj [(''message'', JObj [(''content'', JStr ''secret1<think>secret2'')])]))
     (\<lambda>data. case data of JObj [(k, JObj [(k', JStr s)])] \<Rightarrow> s | _ \<Rightarrow> [])
     ''{\"message\": {\"content\": \"secret1<think>secret2\"}}'' True =
     Inr ([''secret1'' @ [newline]], True)"
proof -
  have p: "process_thinking_content ''secret1<think>secret2'' True = (''secret1'', True)"
    by code_simp
  show ?thesis
    by (simp add: p generate_step_def has_content_def filter_payload_def is_empty_content_def
        strip_def lstrip_def rstrip_def isspace_def)
qed

text \<open>
  C8, amended: for every record with a text at \<open>message.content\<close>, if the text the filter
  retains is empty or whitespace only, the round yields nothing for the record; in
  particular a fragment read in InsideThinking whose text, after fence unwrapping, holds
  no opening marker, and holds no closing marker or ends with one, yields no record. A
  fragment read in InsideThinking that holds an opening marker is not covered: the text
  before the marker is retained.
\<close>

theorem C8_empty_record_suppressed:
  assumes "chunk \<noteq> []"
    and "loads chunk = Inr (JObj kvs)"
    and "map_of kvs ''message'' = Some (JObj message)"
    and "map_of message ''content'' = Some (JStr text)"
  shows "((\<forall>c \<in> set (fst (process_thinking_content text thinking_started)). isspace c) \<longrightarrow>
            generate_step loads dumps chunk thinking_started =
              Inr ([], snd (process_thinking_content text thinking_started))) \<and>
         (thinking_started \<and> \<not> contains think_open (fence_unwrap text) \<and>
          (\<not> contains think_close (fence_unwrap text) \<or> suffix think_close (fence_unwrap text)) \<longrightarrow>
            generate_step loads dumps chunk thinking_started =
              Inr ([], \<not> contains think_close (fence_unwrap text)))"
proof -
  have step: "generate_step loads dumps chunk thinking_started =
      Inr ([], snd (process_thinking_content text thinking_started))"
    if "\<forall>c \<in> set (fst (process_thinking_content text thinking_started)). isspace c"
  proof (cases "process_thinking_content text thinking_started")
    case (Pair cleaned_content thinking_started')
    with that have "is_empty_content cleaned_content" by (simp add: is_empty_content_iff)
    with Pair assms has_content_dict [OF assms(3) assms(4)] show ?thesis
      by (simp add: generate_step_def filter_payload_def)
  qed
  show ?thesis
  proof (intro conjI impI)
    assume "\<forall>c \<in> set (fst (process_thinking_content text thinking_started)). isspace c"
    then show "generate_step loads dumps chunk thinking_started =
        Inr ([], snd (process_thinking_content text thinking_started))"
      by (rule step)
  next
    assume h: "thinking_started \<and> \<not> contains think_open (fence_unwrap text) \<and>
      (\<not> contains think_close (fence_unwrap text) \<or> suffix think_close (fence_unwrap text))"
    then have r: "process_thinking_content text thinking_started =
        ([], \<not> contains think_close (fence_unwrap text))"
      using inside_thinking_retained by simp
    then show "generate_step loads dumps chunk thinking_started =
        Inr ([], \<not> contains think_close (fence_unwrap text))"
      using step by simp
  qed
qed

text \<open>
  A record whose whole text lies inside thinking mode, and one that ends the span.
\<close>

theorem C8_empty_record_suppressed_witness:
  "generate_step
     (\<lambda>chunk. Inr (JObj [(''message'', JObj [(''content'', JStr ''secret'')])]))
     (\<lambda>data. ''{}'') ''{\"message\": {\"content\": \"secret\"}}'' True = Inr ([], True) \<and>
   generate_step
     (\<lambda>chunk. Inr (JObj [(''message'', JObj [(''content'', JStr ''secret</think>'')])]))
     (\<lambda>data. ''{}'') ''{\"message\": {\"content\": \"secret</think>\"}}'' True = Inr ([], False)"
proof -
  have a: "\<not> contains think_open (fence_unwrap ''secret'')"
    "\<not> contains think_close (fence_unwrap ''secret'')"
    by code_simp+
  have b: "\<not> contains think_open (fence_unwrap ''secret</think>'')"
    "contains think_close (fence_unwrap ''secret</think>'')"
    "suffix think_close (fence_unwrap ''secret</think>'')"
    by code_simp+
  show ?thesis
    using C8_empty_record_suppressed
      [of "''{\"message\": {\"content\": \"secret\"}}''"
          "\<lambda>chunk. Inr (JObj [(''message'', JObj [(''content'', JStr ''secret'')])])"
          "[(''message'', JObj [(''content'', JStr ''secret'')])]"
          "[(''content'', JStr ''secret'')]" "''secret''" True "\<lambda>data. ''{}''"]
      C8_empty_record_suppressed
      [of "''{\"message\": {\"content\": \"secret</think>\"}}''"
          "\<lambda>chunk. Inr (JObj [(''message'', JObj [(''content'', JStr ''secret</think>'')])])"
          "[(''message'', JObj [(''content'', JStr ''secret</think>'')])]"
          "[(''content'', JStr ''secret</think>'')]" "''secret</think>''" True "\<lambda>data. ''{}''"]
      a b
    by simp
qed

text \<open>
  C9, as stated: a line of whitespace only is skipped. The loop tests \<open>if chunk\<close>, which
  only an empty line fails. A line of two spaces goes to \<open>json.loads\<close>, which raises
  JSONDecodeError on it (there is no JSON value in it), and the handler forwards the line.
  The parser here is one that rejects its input, as \<open>json.loads\<close> does on this line.
\<close>

theorem C9_whitespace_line_counterexample:
  "isspace CHR '' '' \<and>
   generate_step (\<lambda>chunk. Inl JSONDecodeError) (\<lambda>data. ''{}'') [CHR '' '', CHR '' ''] False =
     Inr ([[CHR '' '', CHR '' '', newline]], False)"
  by (simp add: generate_step_def isspace_def)

text \<open>
  C9, amended: for every upstream line that is empty, the round yields nothing and leaves
  the state as it is. A line of whitespace that is not empty is parsed like any other
  line; when the parser rejects it, it is forwarded unchanged, followed by a newline.
\<close>

theorem C9_blank_line_skipped:
  "generate_step loads dumps [] thinking_started = Inr ([], thinking_started) \<and>
   (chunk \<noteq> [] \<and> (\<forall>c \<in> set chunk. isspace c) \<and> loads chunk = Inl JSONDecodeError \<longrightarrow>
      generate_step loads dumps chunk thinking_started =
        Inr ([chunk @ [newline]], thinking_started))"
  by (simp add: generate_step_def)

theorem C9_blank_line_skipped_witness:
  "generate_step (\<lambda>chunk. Inl JSONDecodeError) (\<lambda>data. ''{}'') [] True = Inr ([], True) \<and>
   generate_step (\<lambda>chunk. Inl JSONDecodeError) (\<lambda>data. ''{}'') [CHR 0x09] True =
     Inr ([[CHR 0x09, newline]], True)"
  using C9_blank_line_skipped
    [of "\<lambda>chunk. Inl JSONDecodeError" "\<lambda>data. ''{}''" True "[CHR 0x09]"]
  by (simp add: isspace_def)

text \<open>
  What the handler of \<open>generate\<close> does for the exception it names: a line on which the
  parser raises JSONDecodeError is forwarded unchanged, followed by one newline.
\<close>

lemma generate_step_not_json:
  "chunk \<noteq> [] \<Longrightarrow> loads chunk = Inl JSONDecodeError \<Longrightarrow>
   generate_step loads dumps chunk thinking_started = Inr ([chunk @ [newline]], thinking_started)"
  by (simp add: generate_step_def)

text \<open>
  C10: every non-empty line that fails to parse as JSON is forwarded unchanged, and the
  stream does not fail. A line that is not UTF-8 fails in \<open>chunk.decode('utf-8')\<close> with
  UnicodeDecodeError, which \<open>except json.JSONDecodeError\<close> does not catch: the exception
  leaves the generator, nothing is yielded for this line or for any line after it.
\<close>

theorem C10_undecodable_line_ends_stream:
  assumes "chunk \<noteq> []" and "loads chunk = Inl UnicodeDecodeError"
  shows "generate_step loads dumps chunk thinking_started = Inl UnicodeDecodeError \<and>
         generate loads dumps (chunk # rest) = ([], Some UnicodeDecodeError)"
  using assms by (simp add: generate_step_def generate_def)

theorem C10_undecodable_line_ends_stream_witness:
  "generate (\<lambda>chunk. if chunk = [CHR 0xFF] then Inl UnicodeDecodeError else Inl JSONDecodeError)
     (\<lambda>data. ''{}'') [[CHR 0xFF], ''not-json''] = ([], Some UnicodeDecodeError) \<and>
   generate (\<lambda>chunk. if chunk = [CHR 0xFF] then Inl UnicodeDecodeError else Inl JSONDecodeError)
     (\<lambda>data. ''{}'') [''not-json''] = ([''not-json'' @ [newline]], None)"
proof -
  have "generate (\<lambda>chunk. if chunk = [CHR 0xFF] then Inl UnicodeDecodeError else Inl JSONDecodeError)
     (\<lambda>data. ''{}'') [''not-json''] = ([''not-json'' @ [newline]], None)"
    by (simp add: generate_def generate_step_def)
  then show ?thesis
    using C10_undecodable_line_ends_stream
      [of "[CHR 0xFF]"
          "\<lambda>chunk. if chunk = [CHR 0xFF] then Inl UnicodeDecodeError else Inl JSONDecodeError"
          "\<lambda>data. ''{}''" False "[''not-json'']"]
    by simp
qed

section \<open>The fence pattern and the fenced block\<close>


lemma first_some_append:
  "(\<forall>x \<in> set xs. f x = None) \<Longrightarrow> first_some f (xs @ ys) = first_some f ys"
  by (induction xs) auto

lemma first_some_upt:
  assumes "n < N" and "\<forall>j < n. f j = None" and "f n = Some y"
  shows "first_some f [0..<N] = Some y"
proof -
  have "[0..<N] = [0..<n] @ [n..<N]"
    using upt_add_eq_append [of 0 n "N - n"] assms(1) by simp
  moreover have "[n..<N] = n # [Suc n..<N]"
    using assms(1) by (rule upt_conv_Cons)
  ultimately have "[0..<N] = [0..<n] @ n # [Suc n..<N]" by simp
  then show ?thesis using assms(2,3) by (simp add: first_some_append)
qed

lemma first_some_upt_least:
  assumes "n < N" and "f n \<noteq> None"
  shows "\<exists>k \<le> n. first_some f [0..<N] = f k \<and> f k \<noteq> None \<and> (\<forall>j < k. f j = None)"
proof -
  define k where "k = (LEAST k. f k \<noteq> None)"
  have k: "f k \<noteq> None" unfolding k_def using assms(2) by (rule LeastI)
  have kn: "k \<le> n" unfolding k_def using assms(2) by (rule Least_le)
  have least: "\<forall>j < k. f j = None" unfolding k_def using not_less_Least by blast
  from k obtain y where "f k = Some y" by blast
  with least kn assms(1) have "first_some f [0..<N] = Some y"
    by (intro first_some_upt [where n = k]) auto
  with \<open>f k = Some y\<close> k kn least show ?thesis by auto
qed

lemma first_some_greedy:
  "f w \<noteq> None \<Longrightarrow> first_some f (rev [0..<Suc w]) = f w"
  by auto

lemma no_early_occurrence:
  "k < length (before_first sep t) \<Longrightarrow> \<not> prefix sep (drop k t)"
proof (induction t arbitrary: k)
  case Nil
  then show ?case by simp
next
  case (Cons c cs)
  then have np: "\<not> prefix sep (c # cs)" by (auto split: if_splits)
  show ?case
  proof (cases k)
    case 0
    with np show ?thesis by simp
  next
    case (Suc k')
    with Cons.prems np have "k' < length (before_first sep cs)" by simp
    with Cons.IH Suc show ?thesis by simp
  qed
qed

lemma not_space_backtick: "\<not> isspace backtick"
  by (simp add: isspace_def backtick_def)

lemma fence_not_space: "prefix fence (c # cs) \<Longrightarrow> \<not> isspace c"
  using not_space_backtick by (auto simp: fence_def)

lemma dropWhile_is_drop: "dropWhile P xs = drop (length (takeWhile P xs)) xs"
  by (induction xs) auto

lemma match_close_iff: "match_close s \<longleftrightarrow> prefix fence (dropWhile isspace s)"
proof
  assume "match_close s"
  then have "\<exists>k \<in> set (rev [0..<Suc (ws_run s)]). prefix fence (drop k s)"
    by (simp add: match_close_def list_ex_iff)
  then obtain k where "k \<in> set (rev [0..<Suc (ws_run s)])" and pk: "prefix fence (drop k s)"
    by blast
  then have k: "k \<le> ws_run s" by auto
  have "\<not> k < ws_run s"
  proof
    assume lt: "k < ws_run s"
    then have "takeWhile isspace s ! k \<in> set (takeWhile isspace s)"
      by (simp add: ws_run_def)
    then have sp: "isspace (takeWhile isspace s ! k)" by (rule set_takeWhileD [THEN conjunct2])
    have ks: "k < length s" using lt length_takeWhile_le [of isspace s]
      by (simp add: ws_run_def)
    have "takeWhile isspace s ! k = s ! k"
      using lt by (simp add: ws_run_def takeWhile_nth)
    with sp have "isspace (s ! k)" by simp
    moreover have "drop k s = s ! k # drop (Suc k) s"
      using ks by (simp add: Cons_nth_drop_Suc)
    ultimately show False using pk fence_not_space by metis
  qed
  with k have "k = ws_run s" by simp
  with pk show "prefix fence (dropWhile isspace s)"
    by (simp add: ws_run_def dropWhile_is_drop [symmetric])
next
  assume "prefix fence (dropWhile isspace s)"
  then have "prefix fence (drop (ws_run s) s)"
    by (simp add: ws_run_def dropWhile_is_drop [symmetric])
  then show "match_close s"
    by (auto simp: match_close_def list_ex_iff)
qed


lemma contains_dropWhile_space:
  "contains fence s \<Longrightarrow> contains fence (dropWhile isspace s)"
proof -
  assume c: "contains fence s"
  have "hd fence \<notin> set (takeWhile isspace s)"
    using not_space_backtick set_takeWhileD [of "hd fence" isspace s] by (auto simp: fence_def)
  moreover have "fence \<noteq> []" by (simp add: fence_def)
  ultimately have "contains fence (takeWhile isspace s @ dropWhile isspace s) =
      contains fence (dropWhile isspace s)"
    by (rule contains_skip [rotated])
  with c show ?thesis by simp
qed

lemma match_group_Some:
  assumes "contains fence t"
  shows "\<exists>n w. match_group t = Some (take n t) \<and> before_first fence t = take n t @ w \<and>
                (\<forall>c \<in> set w. isspace c)"
proof -
  let ?f = "\<lambda>n. if match_close (drop n t) then Some (take n t) else None"
  let ?m = "length (before_first fence t)"
  have decomp: "t = before_first fence t @ fence @ after_first fence t"
    using assms by (rule before_first_decomp)
  then have dm: "drop ?m t = fence @ after_first fence t"
    by (metis append_eq_conv_conj)
  have "dropWhile isspace (fence @ after_first fence t) = fence @ after_first fence t"
    using not_space_backtick by (simp add: fence_def)
  with dm have "match_close (drop ?m t)" by (simp add: match_close_iff)
  then have fm: "?f ?m \<noteq> None" by simp
  have "?m < Suc (length t)"
    using decomp by (metis length_append less_Suc_eq_le le_add1)
  from first_some_upt_least [of ?m "Suc (length t)" ?f, OF this fm]
  obtain n where nm: "n \<le> ?m" and res: "first_some ?f [0..<Suc (length t)] = ?f n"
    and fn: "?f n \<noteq> None" by blast
  from fn have mc: "match_close (drop n t)" by (auto split: if_splits)
  with res have group: "match_group t = Some (take n t)" by (simp add: match_group_def)
  let ?u = "drop n t"
  let ?p = "n + length (takeWhile isspace ?u)"
  have "dropWhile isspace ?u = drop (length (takeWhile isspace ?u)) ?u"
    by (rule dropWhile_is_drop)
  also have "\<dots> = drop ?p t" by (simp add: add.commute)
  finally have "dropWhile isspace ?u = drop ?p t" .
  with mc have "prefix fence (drop ?p t)" by (simp add: match_close_iff)
  then have "\<not> ?p < ?m" using no_early_occurrence by blast
  then have le: "?m - n \<le> length (takeWhile isspace ?u)" by simp
  define w where "w = take (?m - n) ?u"
  have "set w \<subseteq> set (take (length (takeWhile isspace ?u)) ?u)"
    unfolding w_def using le by (rule set_take_subset_set_take)
  also have "take (length (takeWhile isspace ?u)) ?u = takeWhile isspace ?u"
    by (rule takeWhile_eq_take [symmetric])
  finally have ws: "\<forall>c \<in> set w. isspace c"
    using set_takeWhileD by fastforce
  have "before_first fence t = take ?m t"
    using decomp by (metis append_eq_conv_conj)
  also have "take ?m t = take n t @ w"
    unfolding w_def using nm by (metis le_add_diff_inverse take_add)
  finally show ?thesis using group ws by blast
qed


lemma match_group_found: "contains fence t \<Longrightarrow> match_group t \<noteq> None"
  using match_group_Some by fastforce

lemma match_body_fenced:
  assumes "contains fence s"
  shows "match_body s = match_group (dropWhile isspace s)"
proof -
  have "match_group (drop (ws_run s) s) \<noteq> None"
    using contains_dropWhile_space [OF assms] match_group_found
    by (simp add: ws_run_def dropWhile_is_drop [symmetric])
  then have "match_body s = match_group (drop (ws_run s) s)"
    unfolding match_body_def by (rule first_some_greedy)
  then show ?thesis by (simp add: ws_run_def dropWhile_is_drop [symmetric])
qed

lemma contains_after_tag:
  assumes "contains fence r" and "prefix json_tag r"
  shows "contains fence (drop (length json_tag) r)"
proof -
  from assms(2) obtain rest where r: "r = json_tag @ rest" by (auto simp: prefix_def)
  have "fence \<noteq> []" "hd fence \<notin> set json_tag"
    by (simp_all add: fence_def json_tag_def backtick_def)
  then have "contains fence (json_tag @ rest) = contains fence rest" by (rule contains_skip)
  with assms(1) r show ?thesis by simp
qed

lemma match_tagged_fenced:
  assumes "contains fence r"
  shows "match_tagged r =
     match_group (dropWhile isspace (if prefix json_tag r then drop (length json_tag) r else r))"
proof (cases "prefix json_tag r")
  case True
  then have c: "contains fence (drop (length json_tag) r)"
    using assms contains_after_tag by blast
  then have "match_body (drop (length json_tag) r) \<noteq> None"
    using match_body_fenced contains_dropWhile_space match_group_found by simp
  then show ?thesis using True match_body_fenced [OF c]
    by (auto simp: match_tagged_def)
next
  case False
  then show ?thesis using match_body_fenced [OF assms] by (simp add: match_tagged_def)
qed

lemma re_search_fenced:
  assumes "has_fenced_block s"
  shows "re_search_group1 s = match_tagged (after_first fence s)"
proof -
  let ?i = "length (before_first fence s)"
  let ?f = "\<lambda>i. match_at (drop i s)"
  from assms have cs: "contains fence s" and cr: "contains fence (after_first fence s)"
    by (simp_all add: has_fenced_block_def)
  have decomp: "s = before_first fence s @ fence @ after_first fence s"
    using cs by (rule before_first_decomp)
  then have "drop ?i s = fence @ after_first fence s"
    by (metis append_eq_conv_conj)
  then have at: "?f ?i = match_tagged (after_first fence s)"
    by (simp add: match_at_def)
  have "match_tagged (after_first fence s) \<noteq> None"
    using match_tagged_fenced [OF cr] cr contains_after_tag contains_dropWhile_space
      match_group_found by auto
  then obtain g where g: "match_tagged (after_first fence s) = Some g" by blast
  have before: "\<forall>j < ?i. ?f j = None"
    using no_early_occurrence by (simp add: match_at_def)
  have "?i < Suc (length s)"
    using decomp by (metis length_append less_Suc_eq_le le_add1)
  then have "first_some ?f [0..<Suc (length s)] = Some g"
    using before at g by (intro first_some_upt [where n = ?i]) auto
  with g show ?thesis by (simp add: re_search_group1_def)
qed

lemma before_first_dropWhile_space:
  "before_first fence (dropWhile isspace x) = dropWhile isspace (before_first fence x)"
proof (induction x)
  case Nil
  then show ?case by simp
next
  case (Cons c cs)
  show ?case
  proof (cases "isspace c")
    case True
    then have "\<not> prefix fence (c # cs)" using fence_not_space by blast
    with True Cons show ?thesis by simp
  next
    case False
    then show ?thesis by simp
  qed
qed

lemma rstrip_append_space:
  assumes "\<forall>c \<in> set w. isspace c"
  shows "rstrip (x @ w) = rstrip x"
proof -
  have "dropWhile isspace (rev w @ rev x) = dropWhile isspace (rev x)"
    by (rule dropWhile_append2) (use assms in simp)
  then show ?thesis by (simp add: rstrip_def)
qed

lemma strip_append_space:
  "\<forall>c \<in> set w. isspace c \<Longrightarrow> strip (x @ w) = strip x"
proof (cases "\<forall>c \<in> set x. isspace c")
  case True
  assume w: "\<forall>c \<in> set w. isspace c"
  have "dropWhile isspace (x @ w) = []" "dropWhile isspace x = []" using True w by auto
  then show ?thesis by (simp only: strip_def lstrip_def)
next
  case False
  assume w: "\<forall>c \<in> set w. isspace c"
  from False have "dropWhile isspace (x @ w) = dropWhile isspace x @ w"
    by (metis dropWhile_append1)
  then show ?thesis using w by (simp add: strip_def lstrip_def rstrip_append_space)
qed

lemma strip_lstrip: "strip (dropWhile isspace x) = strip x"
  by (simp add: strip_def lstrip_def dropWhile_idem)

lemma fence_unwrap_fenced:
  assumes "has_fenced_block s"
  shows "fence_unwrap s = spec_fence_content s"
proof -
  let ?r = "after_first fence s"
  let ?r' = "if prefix json_tag ?r then drop (length json_tag) ?r else ?r"
  let ?t = "dropWhile isspace ?r'"
  from assms have cs: "contains fence s" and cr: "contains fence ?r"
    by (simp_all add: has_fenced_block_def)
  have "contains fence ?r'" using cr contains_after_tag by auto
  then have "contains fence ?t" by (rule contains_dropWhile_space)
  from match_group_Some [OF this]
  obtain n w where g: "match_group ?t = Some (take n ?t)"
    and bf: "before_first fence ?t = take n ?t @ w" and w: "\<forall>c \<in> set w. isspace c"
    by blast
  have search: "re_search_group1 s = Some (take n ?t)"
    using re_search_fenced [OF assms] match_tagged_fenced [OF cr] g by simp
  have "strip (take n ?t) = strip (take n ?t @ w)"
    using w by (simp add: strip_append_space)
  also have "\<dots> = strip (before_first fence ?t)" using bf by simp
  also have "\<dots> = strip (before_first fence ?r')"
    by (simp only: before_first_dropWhile_space strip_lstrip)
  finally have "strip (take n ?t) = spec_fence_content s"
    by (simp add: spec_fence_content_def Let_def)
  with search cs show ?thesis by (simp add: fence_unwrap_def)
qed


text \<open>
  C7, as stated: in state Normal, an input with a complete fenced block gives the trimmed
  content of the block, and the state stays Normal. The markers are looked for in the
  unwrapped content: when the block holds an opening marker, only the content before it
  is retained and the state becomes InsideThinking.
\<close>

theorem C7_marker_in_fence_counterexample:
  "has_fenced_block (fence @ ''a<think>b'' @ fence) \<and>
   spec_fence_content (fence @ ''a<think>b'' @ fence) = ''a<think>b'' \<and>
   process_thinking_content (fence @ ''a<think>b'' @ fence) False = (''a'', True)"
  by code_simp

text \<open>
  C7, amended: in state Normal, for every input with a complete fenced block (the
  \<open>json\<close> tag on the opening fence optional) whose trimmed content holds neither marker,
  the filter retains exactly the content between the first opening fence and the next
  fence, trimmed; the text outside the block is discarded and the state stays Normal.
\<close>

theorem C7_fence_unwrap:
  assumes "has_fenced_block text"
    and "\<not> contains think_open (spec_fence_content text)"
    and "\<not> contains think_close (spec_fence_content text)"
  shows "process_thinking_content text False = (spec_fence_content text, False)"
proof -
  have "contains fence text" using assms(1) by (simp add: has_fenced_block_def)
  then have "text \<noteq> []" by (auto simp: fence_def)
  then show ?thesis
    using assms(2,3) fence_unwrap_fenced [OF assms(1)]
    by (simp add: process_thinking_content_def)
qed

text \<open>
  The fenced JSON answer of the specification, with text around the block.
\<close>

theorem C7_fence_unwrap_witness:
  "process_thinking_content
     (''Sure: '' @ fence @ ''json'' @ [newline] @ ''{\"x\":1}'' @ [newline] @ fence @ '' done'')
     False = (''{\"x\":1}'', False) \<and>
   process_thinking_content
     (fence @ ''json'' @ [newline] @ ''{\"x\":1}'' @ [newline] @ fence) False =
     (''{\"x\":1}'', False)"
proof -
  let ?a = "''Sure: '' @ fence @ ''json'' @ [newline] @ ''{\"x\":1}'' @ [newline] @ fence @ '' done''"
  let ?b = "fence @ ''json'' @ [newline] @ ''{\"x\":1}'' @ [newline] @ fence"
  have a: "has_fenced_block ?a" "\<not> contains think_open (spec_fence_content ?a)"
    "\<not> contains think_close (spec_fence_content ?a)" "spec_fence_content ?a = ''{\"x\":1}''"
    by code_simp+
  have b: "has_fenced_block ?b" "\<not> contains think_open (spec_fence_content ?b)"
    "\<not> contains think_close (spec_fence_content ?b)" "spec_fence_content ?b = ''{\"x\":1}''"
    by code_simp+
  show ?thesis
    using C7_fence_unwrap [OF a(1,2,3)] C7_fence_unwrap [OF b(1,2,3)] a(4) b(4) by simp
qed

section \<open>Spans over several fragments\<close>























end
